theory Spec2Isabelle
  imports Main "HOL-Library.Char_ord" "HOL-Library.List_Lexorder"
begin

section \<open>Strings of the email tools\<close>

text \<open>
  The email tools of \<^verbatim>\<open>src/App.tsx\<close> (\<^verbatim>\<open>EmailValidation\<close>, lines 2365-2519, and
  \<^verbatim>\<open>EmailExtractor\<close>, lines 2522-2536) work on JavaScript strings. A string is modelled
  as a \<^typ>\<open>string\<close>, read as its list of UTF-16 code units; a \<^typ>\<open>char\<close> is a code
  unit below 256, so the model covers the texts of the Latin-1 range. Every character the
  two regular expressions name is ASCII.
\<close>

text \<open>
  \<^verbatim>\<open>\s\<close> of a regular expression and \<^verbatim>\<open>String.prototype.trim\<close> use the same set:
  WhiteSpace and LineTerminator of ECMAScript. Below 256 these are TAB, LF, VT, FF, CR,
  SPACE and NBSP.
\<close>

definition isWhiteSpace :: "char \<Rightarrow> bool" where
  "isWhiteSpace c = (of_char c \<in> {9, 10, 11, 12, 13, 32, 160 :: nat})"

text \<open>LineTerminator below 256: LF and CR. The dot of a regular expression excludes them.\<close>

definition isLineTerminator :: "char \<Rightarrow> bool" where
  "isLineTerminator c = (of_char c \<in> {10, 13 :: nat})"

text \<open>
  \<^verbatim>\<open>toLowerCase\<close> and \<^verbatim>\<open>toUpperCase\<close> on one code unit below 256: A-Z and the
  Latin-1 capitals 0xC0-0xDE (without the multiplication sign 0xD7) move by 32. The
  upper-case images of 0xB5, 0xDF and 0xFF are not single code units below 256 and are
  never equal to the image of another code unit below 256, so they stay as they are here
  (the upper-case form is only used to compare characters under the \<^verbatim>\<open>i\<close> flag).
\<close>

definition lowerChar :: "char \<Rightarrow> char" where
  "lowerChar c =
     (let n = (of_char c :: nat)
      in if (65 \<le> n \<and> n \<le> 90) \<or> (192 \<le> n \<and> n \<le> 222 \<and> n \<noteq> 215) then char_of (n + 32) else c)"

definition upperChar :: "char \<Rightarrow> char" where
  "upperChar c =
     (let n = (of_char c :: nat)
      in if (97 \<le> n \<and> n \<le> 122) \<or> (224 \<le> n \<and> n \<le> 254 \<and> n \<noteq> 247) then char_of (n - 32) else c)"

definition toLowerCase :: "string \<Rightarrow> string" where
  "toLowerCase s = map lowerChar s"

definition trim :: "string \<Rightarrow> string" where
  "trim s = rev (dropWhile isWhiteSpace (rev (dropWhile isWhiteSpace s)))"

section \<open>Regular expressions\<close>

text \<open>
  The two patterns of the source use literals, the dot, character classes (with ranges
  and \<^verbatim>\<open>\s\<close>), the anchors, sequence, alternation and greedy quantifiers; groups only
  group (there is no back-reference). \<open>Rep mn mx r\<close> is \<^verbatim>\<open>r{mn,mx}\<close>, with
  \<open>None\<close> for no upper bound: \<^verbatim>\<open>r+\<close> is \<open>Rep 1 None r\<close> and \<^verbatim>\<open>r*\<close> is
  \<open>Rep 0 None r\<close>.
\<close>

datatype item = One char | Rng char char | Space

datatype re =
    Lit char
  | Dot
  | Cls "item list"
  | NCls "item list"
  | Bol
  | Eol
  | Seq re re
  | Alt re re
  | Rep nat "nat option" re

abbreviation Plus :: "re \<Rightarrow> re" where
  "Plus r \<equiv> Rep 1 None r"

abbreviation Star :: "re \<Rightarrow> re" where
  "Star r \<equiv> Rep 0 None r"

fun inItem :: "item \<Rightarrow> char \<Rightarrow> bool" where
  "inItem (One a) c = (c = a)"
| "inItem (Rng lo hi) c = (lo \<le> c \<and> c \<le> hi)"
| "inItem Space c = isWhiteSpace c"

text \<open>
  Under the \<^verbatim>\<open>i\<close> flag a character matches a class when its canonical (upper-case) form
  is that of a member of the class. Below 256 the characters with the canonical form of
  \<open>c\<close> are \<open>c\<close>, \<open>upperChar c\<close> and \<open>lowerChar c\<close>.
\<close>

definition inClass :: "bool \<Rightarrow> item list \<Rightarrow> char \<Rightarrow> bool" where
  "inClass ic A c =
     (list_ex (\<lambda>i. inItem i c) A
      \<or> (ic \<and> (list_ex (\<lambda>i. inItem i (upperChar c)) A \<or> list_ex (\<lambda>i. inItem i (lowerChar c)) A)))"

definition sameChar :: "bool \<Rightarrow> char \<Rightarrow> char \<Rightarrow> bool" where
  "sameChar ic a c = (c = a \<or> (ic \<and> upperChar c = upperChar a))"

fun decMax :: "nat option \<Rightarrow> nat option" where
  "decMax None = None"
| "decMax (Some k) = Some (k - 1)"

text \<open>
  The backtracking matcher of ECMAScript, as the list of its successes: \<open>ends ic n r s\<close>
  is, in the order in which backtracking tries them, every rest of the input that can
  follow a match of \<open>r\<close> at the front of \<open>s\<close>. A continuation is run on each in turn
  and the first success wins. \<open>ic\<close> is the \<^verbatim>\<open>i\<close> flag and \<open>n\<close> the length of the whole
  input, so that the position of \<open>s\<close> is \<open>n - length s\<close>. The quantifier follows
  RepeatMatcher: greedy, and an iteration that is allowed to stop (\<open>mn = 0\<close>) and
  consumed nothing is a failure.
\<close>

fun reSize :: "re \<Rightarrow> nat" where
  "reSize (Seq a b) = Suc (reSize a + reSize b)"
| "reSize (Alt a b) = Suc (reSize a + reSize b)"
| "reSize (Rep mn mx a) = Suc (reSize a)"
| "reSize r = 0"

fun repMin :: "re \<Rightarrow> nat" where
  "repMin (Rep mn mx a) = mn"
| "repMin r = 0"

function ends :: "bool \<Rightarrow> nat \<Rightarrow> re \<Rightarrow> string \<Rightarrow> string list" where
  "ends ic n (Lit a) s = (case s of [] \<Rightarrow> [] | c # cs \<Rightarrow> if sameChar ic a c then [cs] else [])"
| "ends ic n Dot s = (case s of [] \<Rightarrow> [] | c # cs \<Rightarrow> if isLineTerminator c then [] else [cs])"
| "ends ic n (Cls A) s = (case s of [] \<Rightarrow> [] | c # cs \<Rightarrow> if inClass ic A c then [cs] else [])"
| "ends ic n (NCls A) s = (case s of [] \<Rightarrow> [] | c # cs \<Rightarrow> if inClass ic A c then [] else [cs])"
| "ends ic n Bol s = (if length s = n then [s] else [])"
| "ends ic n Eol s = (if s = [] then [s] else [])"
| "ends ic n (Seq a b) s = concat (map (ends ic n b) (ends ic n a s))"
| "ends ic n (Alt a b) s = ends ic n a s @ ends ic n b s"
| "ends ic n (Rep mn mx a) s =
     (if mx = Some 0 then [s]
      else if 0 < mn then concat (map (ends ic n (Rep (mn - 1) (decMax mx) a)) (ends ic n a s))
      else concat (map (\<lambda>r. if length r < length s then ends ic n (Rep 0 (decMax mx) a) r else [])
                       (ends ic n a s)) @ [s])"
  by pat_completeness auto
termination
  by (relation "measures [\<lambda>(ic, n, r, s). reSize r, \<lambda>(ic, n, r, s). repMin r, \<lambda>(ic, n, r, s). length s]")
     auto

text \<open>
  A pattern avoids a character when none of its atoms accepts it; then no match of the
  pattern runs over that character.
\<close>

fun avoids :: "bool \<Rightarrow> char \<Rightarrow> re \<Rightarrow> bool" where
  "avoids ic c (Lit a) = (\<not> sameChar ic a c)"
| "avoids ic c Dot = isLineTerminator c"
| "avoids ic c (Cls A) = (\<not> inClass ic A c)"
| "avoids ic c (NCls A) = inClass ic A c"
| "avoids ic c Bol = True"
| "avoids ic c Eol = True"
| "avoids ic c (Seq a b) = (avoids ic c a \<and> avoids ic c b)"
| "avoids ic c (Alt a b) = (avoids ic c a \<and> avoids ic c b)"
| "avoids ic c (Rep mn mx a) = avoids ic c a"

text \<open>
  \<^verbatim>\<open>RegExp.prototype.test\<close> of a pattern without the \<^verbatim>\<open>g\<close> flag: the match is tried
  at index 0, then at every later index up to the length of the input.
\<close>

fun search :: "bool \<Rightarrow> nat \<Rightarrow> re \<Rightarrow> string \<Rightarrow> bool" where
  "search ic n r [] = (ends ic n r [] \<noteq> [])"
| "search ic n r (c # cs) = (ends ic n r (c # cs) \<noteq> [] \<or> search ic n r cs)"

definition regexTest :: "bool \<Rightarrow> re \<Rightarrow> string \<Rightarrow> bool" where
  "regexTest ic r s = search ic (length s) r s"

text \<open>
  \<^verbatim>\<open>String.prototype.match\<close> with a \<^verbatim>\<open>g\<close> pattern: the matches from left to right, the
  next one sought where the last one ended; after an empty match the index moves on by
  one. \<open>s\<close> is the input from the current index on.
\<close>

function matchAll :: "bool \<Rightarrow> nat \<Rightarrow> re \<Rightarrow> string \<Rightarrow> string list" where
  "matchAll ic n r s =
     (case ends ic n r s of
        [] \<Rightarrow> (case s of [] \<Rightarrow> [] | c # cs \<Rightarrow> matchAll ic n r cs)
      | e # es \<Rightarrow>
          if length e < length s then take (length s - length e) s # matchAll ic n r e
          else [] # (case s of [] \<Rightarrow> [] | c # cs \<Rightarrow> matchAll ic n r cs))"
  by pat_completeness auto
termination
  by (relation "measure (\<lambda>(ic, n, r, s). length s)") auto

definition stringMatch :: "bool \<Rightarrow> re \<Rightarrow> string \<Rightarrow> string list" where
  "stringMatch ic r s = matchAll ic (length s) r s"

text \<open>
  \<^verbatim>\<open>String.prototype.split\<close> with a pattern: \<open>tok\<close> is the input from \<open>p\<close> to \<open>q\<close>
  and \<open>s\<close> the input from \<open>q\<close> on. The pattern is tried at \<open>q\<close> only; where it fails,
  or matches with its end \<open>e\<close> equal to \<open>p\<close>, \<open>q\<close> moves on by one; otherwise the
  token is pushed and both indices move to \<open>e\<close>. The last token is pushed at the end.
\<close>

function splitLoop :: "bool \<Rightarrow> nat \<Rightarrow> re \<Rightarrow> string \<Rightarrow> string \<Rightarrow> string list" where
  "splitLoop ic n r tok s =
     (case s of
        [] \<Rightarrow> [tok]
      | c # cs \<Rightarrow>
          (case ends ic n r s of
             [] \<Rightarrow> splitLoop ic n r (tok @ [c]) cs
           | e # es \<Rightarrow>
               if length e < length s then tok # splitLoop ic n r [] e
               else if tok = [] then splitLoop ic n r (tok @ [c]) cs
               else tok # splitLoop ic n r [] s))"
  by pat_completeness auto
termination
  by (relation "measure (\<lambda>(ic, n, r, tok, s). 2 * length s + (if tok = [] then 0 else 1))") auto

definition splitRegex :: "bool \<Rightarrow> re \<Rightarrow> string \<Rightarrow> string list" where
  "splitRegex ic r s =
     (if s = [] then (if ends ic 0 r [] \<noteq> [] then [] else [[]])
      else splitLoop ic (length s) r [] s)"

text \<open>\<^verbatim>\<open>String.prototype.split\<close> with a separator of one character.\<close>

fun splitCharLoop :: "char \<Rightarrow> string \<Rightarrow> string \<Rightarrow> string list" where
  "splitCharLoop sep tok [] = [tok]"
| "splitCharLoop sep tok (c # cs) =
     (if c = sep then tok # splitCharLoop sep [] cs else splitCharLoop sep (tok @ [c]) cs)"

definition splitChar :: "char \<Rightarrow> string \<Rightarrow> string list" where
  "splitChar sep s = splitCharLoop sep [] s"

text \<open>Reading an array at an index: \<open>None\<close> is \<^verbatim>\<open>undefined\<close>, past the end.\<close>

fun at :: "'a list \<Rightarrow> nat \<Rightarrow> 'a option" where
  "at [] i = None"
| "at (x # xs) 0 = Some x"
| "at (x # xs) (Suc i) = at xs i"

text \<open>
  \<^verbatim>\<open>[...new Set(xs)]\<close>: a Set keeps its elements in the order of their first insertion,
  and adding an element it has changes nothing.
\<close>

fun setAdd :: "'a list \<Rightarrow> 'a list \<Rightarrow> 'a list" where
  "setAdd acc [] = acc"
| "setAdd acc (x # xs) = setAdd (if x \<in> set acc then acc else acc @ [x]) xs"

definition newSet :: "'a list \<Rightarrow> 'a list" where
  "newSet xs = setAdd [] xs"

text \<open>
  \<^verbatim>\<open>Set.prototype.has\<close> on a set of strings, asked for a string or for
  \<^verbatim>\<open>undefined\<close>.
\<close>

fun has :: "string set \<Rightarrow> string option \<Rightarrow> bool" where
  "has S None = False"
| "has S (Some x) = (x \<in> S)"

section \<open>The patterns of the source\<close>

text \<open>
  The validator's pattern (line 2404):
  \<^verbatim>\<open>/^(([^<>()[\]\\.,;:\s@"]+(\.[^<>()[\]\\.,;:\s@"]+)*)|(".+"))@((\[[0-9]{1,3}\.[0-9]{1,3}\.[0-9]{1,3}\.[0-9]{1,3}])|(([a-zA-Z\-0-9]+\.)+[a-zA-Z]{2,}))$/\<close>
\<close>

definition atomChars :: "item list" where
  "atomChars =
     [One CHR ''<'', One CHR ''>'', One CHR ''('', One CHR '')'', One CHR ''['', One CHR '']'',
      One (CHR 0x5C), One CHR ''.'', One CHR '','', One CHR '';'', One CHR '':'', Space,
      One CHR ''@'', One (CHR 0x22)]"

definition dotAtom :: re where
  "dotAtom = Seq (Plus (NCls atomChars)) (Star (Seq (Lit CHR ''.'') (Plus (NCls atomChars))))"

definition quotedString :: re where
  "quotedString = Seq (Lit (CHR 0x22)) (Seq (Plus Dot) (Lit (CHR 0x22)))"

definition octet :: re where
  "octet = Rep 1 (Some 3) (Cls [Rng CHR ''0'' CHR ''9''])"

definition ipLiteral :: re where
  "ipLiteral =
     Seq (Lit CHR ''['') (Seq octet (Seq (Lit CHR ''.'') (Seq octet (Seq (Lit CHR ''.'')
       (Seq octet (Seq (Lit CHR ''.'') (Seq octet (Lit CHR '']''))))))))"

definition hostName :: re where
  "hostName =
     Seq (Plus (Seq (Plus (Cls [Rng CHR ''a'' CHR ''z'', Rng CHR ''A'' CHR ''Z'', One CHR ''-'',
                                Rng CHR ''0'' CHR ''9''])) (Lit CHR ''.'')))
         (Rep 2 None (Cls [Rng CHR ''a'' CHR ''z'', Rng CHR ''A'' CHR ''Z'']))"

definition validatorRegex :: re where
  "validatorRegex =
     Seq Bol (Seq (Alt dotAtom quotedString) (Seq (Lit CHR ''@'') (Seq (Alt ipLiteral hostName) Eol)))"

text \<open>The separator of the validator's input (line 2407): \<^verbatim>\<open>/[,\s\n]+/\<close>\<close>

definition separatorRegex :: re where
  "separatorRegex = Plus (Cls [One CHR '','', Space, One (CHR 0x0A)])"

text \<open>
  The extractor's pattern (line 2532), with the flags \<^verbatim>\<open>gi\<close>:
  \<^verbatim>\<open>/([a-zA-Z0-9._-]+@[a-zA-Z0-9._-]+\.[a-zA-Z0-9._-]+)/gi\<close>
\<close>

definition looseChars :: "item list" where
  "looseChars =
     [Rng CHR ''a'' CHR ''z'', Rng CHR ''A'' CHR ''Z'', Rng CHR ''0'' CHR ''9'',
      One CHR ''.'', One CHR ''_'', One CHR ''-'']"

definition extractorRegex :: re where
  "extractorRegex =
     Seq (Plus (Cls looseChars)) (Seq (Lit CHR ''@'')
       (Seq (Plus (Cls looseChars)) (Seq (Lit CHR ''.'') (Plus (Cls looseChars)))))"

section \<open>The validator\<close>

text \<open>
  \<^verbatim>\<open>validateEmails\<close> (lines 2392-2437). The two sets come from
  \<^verbatim>\<open>./data/disposable-domains\<close> and are parameters here: \<open>disposableDomains\<close> and
  \<open>roleBasedEmails\<close>. On a blank input the source sets the error message and returns
  without a result: that is \<open>Inl InputRequired\<close>. Otherwise the result is what the timer's
  callback hands to \<^verbatim>\<open>setResults\<close>.
\<close>

datatype error = InputRequired

record Validation =
  valid :: "string list"
  invalid :: "string list"
  risky :: "string list"

record ValidationResult = Validation +
  total :: int
  duplicates :: int

definition classify :: "string set \<Rightarrow> string set \<Rightarrow> Validation \<Rightarrow> string \<Rightarrow> Validation" where
  "classify disposableDomains roleBasedEmails validation email =
     (if \<not> regexTest False validatorRegex email
      then validation\<lparr>invalid := invalid validation @ [email]\<rparr>
      else
        let domain = at (splitChar CHR ''@'' email) 1;
            user = at (splitChar CHR ''@'' email) 0
        in if has disposableDomains domain \<or> has roleBasedEmails user
           then validation\<lparr>risky := risky validation @ [email]\<rparr>
           else validation\<lparr>valid := valid validation @ [email]\<rparr>)"

fun classifyAll :: "string set \<Rightarrow> string set \<Rightarrow> Validation \<Rightarrow> string list \<Rightarrow> Validation" where
  "classifyAll D R validation [] = validation"
| "classifyAll D R validation (email # rest) = classifyAll D R (classify D R validation email) rest"

definition rawEmails :: "string \<Rightarrow> string list" where
  "rawEmails inputText = filter (\<lambda>e. trim e \<noteq> []) (splitRegex False separatorRegex inputText)"

definition uniqueEmails :: "string \<Rightarrow> string list" where
  "uniqueEmails inputText = newSet (map (\<lambda>e. toLowerCase (trim e)) (rawEmails inputText))"

definition validateEmails :: "string set \<Rightarrow> string set \<Rightarrow> string \<Rightarrow> error + ValidationResult" where
  "validateEmails disposableDomains roleBasedEmails inputText =
     (if trim inputText = [] then Inl InputRequired
      else
        let emails = rawEmails inputText;
            unique = uniqueEmails inputText;
            validation = classifyAll disposableDomains roleBasedEmails
                           \<lparr>valid = [], invalid = [], risky = []\<rparr> unique
        in Inr \<lparr>valid = valid validation, invalid = invalid validation, risky = risky validation,
                total = int (length emails),
                duplicates = int (length emails) - int (length unique)\<rparr>)"

text \<open>
  The split as the specification words it (section 4.3, step 3): a token is split into
  local part and domain on its last, or only, at-sign. \<open>specSplit\<close> is that reading,
  to be compared with the parts of index 0 and 1 that the source takes from
  \<open>splitChar\<close>; it is \<open>None\<close> for a token without an at-sign.
\<close>

fun specSplit :: "string \<Rightarrow> (string \<times> string) option" where
  "specSplit [] = None"
| "specSplit (c # cs) =
     (case specSplit cs of
        Some (l, d) \<Rightarrow> Some (c # l, d)
      | None \<Rightarrow> if c = CHR ''@'' then Some ([], cs) else None)"

text \<open>The three lists of a classification, one after the other.\<close>

definition buckets :: "Validation \<Rightarrow> string list" where
  "buckets v = valid v @ invalid v @ risky v"

section \<open>The extractor\<close>

text \<open>
  \<^verbatim>\<open>handleExtract\<close> (lines 2527-2536); the result is the list handed to
  \<^verbatim>\<open>setExtractedEmails\<close>. \<^verbatim>\<open>Array.prototype.sort\<close> without a comparator orders strings
  by their code units, a proper prefix first: the order of \<^typ>\<open>string\<close>.
\<close>

definition handleExtract :: "string \<Rightarrow> string list" where
  "handleExtract inputText =
     (if trim inputText = [] then []
      else
        let foundEmails = stringMatch True extractorRegex inputText;
            unique = newSet (map toLowerCase foundEmails)
        in sort unique)"

text \<open>
  \<^verbatim>\<open>extractedEmails.join('\n')\<close>, the text that \<^verbatim>\<open>copyResults\<close> (line 2540) puts on
  the clipboard: the elements with a line feed between them.
\<close>

fun joinNewline :: "string list \<Rightarrow> string" where
  "joinNewline [] = []"
| "joinNewline [x] = x"
| "joinNewline (x # y # ys) = x @ CHR 0x0A # joinNewline (y # ys)"

text \<open>
  The form of a match of the extractor's pattern: a run of class characters, the at-sign,
  a second run, a dot and a third run.
\<close>

abbreviation looseChar :: "char \<Rightarrow> bool" where
  "looseChar \<equiv> inClass True looseChars"

definition shaped :: "string \<Rightarrow> bool" where
  "shaped e =
     (\<exists>L D1 D2. e = L @ CHR ''@'' # D1 @ CHR ''.'' # D2 \<and> L \<noteq> [] \<and> D1 \<noteq> [] \<and> D2 \<noteq> []
        \<and> list_all looseChar L \<and> list_all looseChar D1 \<and> list_all looseChar D2)"

section \<open>What a match consumes\<close>

text \<open>
  The equation of the quantifier is recursive under its own conditions, so it is unfolded
  by hand and not by the simplifier.
\<close>

declare ends.simps(9) [simp del]

lemma ends_suffix: "r \<in> set (ends ic n re s) \<Longrightarrow> \<exists>p. s = p @ r"
proof (induction ic n re s arbitrary: r rule: ends.induct)
  case (7 ic n a b s)
  from "7.prems" obtain r1 where r1: "r1 \<in> set (ends ic n a s)" and r: "r \<in> set (ends ic n b r1)"
    by auto
  from "7.IH"(1) [OF r1] obtain p1 where "s = p1 @ r1" by blast
  moreover from "7.IH"(2) [OF r1 r] obtain p2 where "r1 = p2 @ r" by blast
  ultimately have "s = (p1 @ p2) @ r" by simp
  then show ?case by blast
next
  case (9 ic n mn mx a s)
  note unf = ends.simps(9) [of ic n mn mx a s]
  show ?case
  proof (cases "mx = Some 0")
    case True
    with "9.prems" show ?thesis unfolding unf by simp
  next
    case nz: False
    show ?thesis
    proof (cases "0 < mn")
      case True
      with nz "9.prems" obtain r1 where r1: "r1 \<in> set (ends ic n a s)"
        and r: "r \<in> set (ends ic n (Rep (mn - 1) (decMax mx) a) r1)"
        unfolding unf by auto
      from "9.IH"(1) [OF nz True r1] obtain p1 where "s = p1 @ r1" by blast
      moreover from "9.IH"(2) [OF nz True r1 r] obtain p2 where "r1 = p2 @ r" by blast
      ultimately have "s = (p1 @ p2) @ r" by simp
      then show ?thesis by blast
    next
      case False
      with nz "9.prems" consider "r = s"
        | r1 where "r1 \<in> set (ends ic n a s)" "length r1 < length s"
            "r \<in> set (ends ic n (Rep 0 (decMax mx) a) r1)"
        unfolding unf by (auto split: if_splits)
      then show ?thesis
      proof cases
        case 1
        then show ?thesis by simp
      next
        case (2 r1)
        from "9.IH"(3) [OF nz False 2(1)] obtain p1 where "s = p1 @ r1" by blast
        moreover from "9.IH"(4) [OF nz False 2(1) 2(2) 2(3)] obtain p2 where "r1 = p2 @ r" by blast
        ultimately have "s = (p1 @ p2) @ r" by simp
        then show ?thesis by blast
      qed
    qed
  qed
qed (auto split: list.splits if_splits)

lemma ends_avoids:
  "avoids ic c re \<Longrightarrow> r \<in> set (ends ic n re s) \<Longrightarrow> \<exists>p. s = p @ r \<and> c \<notin> set p"
proof (induction ic n re s arbitrary: r rule: ends.induct)
  case (7 ic n a b s)
  from "7.prems" obtain r1 where r1: "r1 \<in> set (ends ic n a s)" and r: "r \<in> set (ends ic n b r1)"
    by auto
  from "7.prems"(1) have av: "avoids ic c a" "avoids ic c b" by simp_all
  from "7.IH"(1) [OF av(1) r1] obtain p1 where "s = p1 @ r1" "c \<notin> set p1" by blast
  moreover from "7.IH"(2) [OF r1 av(2) r] obtain p2 where "r1 = p2 @ r" "c \<notin> set p2" by blast
  ultimately have "s = (p1 @ p2) @ r \<and> c \<notin> set (p1 @ p2)" by simp
  then show ?case by blast
next
  case (8 ic n a b s)
  then show ?case by auto
next
  case (9 ic n mn mx a s)
  from "9.prems"(1) have av: "avoids ic c a" by simp
  then have av': "\<And>k m. avoids ic c (Rep k m a)" by simp
  note unf = ends.simps(9) [of ic n mn mx a s]
  show ?case
  proof (cases "mx = Some 0")
    case True
    with "9.prems" show ?thesis unfolding unf by simp
  next
    case nz: False
    show ?thesis
    proof (cases "0 < mn")
      case True
      with nz "9.prems" obtain r1 where r1: "r1 \<in> set (ends ic n a s)"
        and r: "r \<in> set (ends ic n (Rep (mn - 1) (decMax mx) a) r1)"
        unfolding unf by auto
      from "9.IH"(1) [OF nz True av r1] obtain p1 where "s = p1 @ r1" "c \<notin> set p1" by blast
      moreover from "9.IH"(2) [OF nz True r1 av' r] obtain p2 where "r1 = p2 @ r" "c \<notin> set p2" by blast
      ultimately have "s = (p1 @ p2) @ r \<and> c \<notin> set (p1 @ p2)" by simp
      then show ?thesis by blast
    next
      case False
      with nz "9.prems" consider "r = s"
        | r1 where "r1 \<in> set (ends ic n a s)" "length r1 < length s"
            "r \<in> set (ends ic n (Rep 0 (decMax mx) a) r1)"
        unfolding unf by (auto split: if_splits)
      then show ?thesis
      proof cases
        case 1
        then show ?thesis by simp
      next
        case (2 r1)
        from "9.IH"(3) [OF nz False av 2(1)] obtain p1 where "s = p1 @ r1" "c \<notin> set p1" by blast
        moreover from "9.IH"(4) [OF nz False 2(1) 2(2) av' 2(3)] obtain p2 where "r1 = p2 @ r" "c \<notin> set p2" by blast
        ultimately have "s = (p1 @ p2) @ r \<and> c \<notin> set (p1 @ p2)" by simp
        then show ?thesis by blast
      qed
    qed
  qed
qed (auto split: list.splits if_splits)

lemma search_Bol_short: "length s < n \<Longrightarrow> \<not> search ic n (Seq Bol X) s"
  by (induction s) auto

lemma regexTest_Bol: "regexTest ic (Seq Bol X) s \<longleftrightarrow> ends ic (length s) X s \<noteq> []"
  by (cases s) (auto simp: regexTest_def search_Bol_short)

section \<open>Sets in insertion order, trimming\<close>

lemma setAdd_set: "set (setAdd acc xs) = set acc \<union> set xs"
  by (induction xs arbitrary: acc) auto

lemma setAdd_distinct: "distinct acc \<Longrightarrow> distinct (setAdd acc xs)"
  by (induction xs arbitrary: acc) auto

lemma newSet_set: "set (newSet xs) = set xs"
  by (simp add: newSet_def setAdd_set)

lemma newSet_distinct: "distinct (newSet xs)"
  by (simp add: newSet_def setAdd_distinct)

lemma newSet_length: "length (newSet xs) = card (set xs)"
  using distinct_card [OF newSet_distinct, of xs] by (simp add: newSet_set)

lemma setAdd_id: "distinct (acc @ xs) \<Longrightarrow> setAdd acc xs = acc @ xs"
  by (induction xs arbitrary: acc) auto

lemma newSet_id: "distinct xs \<Longrightarrow> newSet xs = xs"
  by (simp add: newSet_def setAdd_id)

lemma all_dropWhile: "(\<forall>x\<in>set (dropWhile P s). P x) \<longleftrightarrow> (\<forall>x\<in>set s. P x)"
  by (induction s) auto

lemma trim_Nil_iff: "trim s = [] \<longleftrightarrow> list_all isWhiteSpace s"
  by (simp add: trim_def dropWhile_eq_Nil_conv all_dropWhile list_all_iff)

section \<open>The classification loop\<close>

lemma classify_length: "length (buckets (classify D R v e)) = Suc (length (buckets v))"
  by (simp add: classify_def buckets_def Let_def)

lemma classify_set: "set (buckets (classify D R v e)) = insert e (set (buckets v))"
  by (auto simp: classify_def buckets_def Let_def)

lemma classify_distinct:
  "distinct (buckets v) \<Longrightarrow> e \<notin> set (buckets v) \<Longrightarrow> distinct (buckets (classify D R v e))"
  by (auto simp: classify_def buckets_def Let_def)

lemma classifyAll_length: "length (buckets (classifyAll D R v es)) = length (buckets v) + length es"
  by (induction es arbitrary: v) (simp_all add: classify_length)

lemma classifyAll_set: "set (buckets (classifyAll D R v es)) = set (buckets v) \<union> set es"
  by (induction es arbitrary: v) (simp_all add: classify_set)

lemma classifyAll_distinct:
  "distinct (buckets v) \<Longrightarrow> distinct es \<Longrightarrow> set es \<inter> set (buckets v) = {}
   \<Longrightarrow> distinct (buckets (classifyAll D R v es))"
proof (induction es arbitrary: v)
  case Nil
  then show ?case by simp
next
  case (Cons e es)
  have "distinct (buckets (classify D R v e))"
    using Cons.prems by (intro classify_distinct) auto
  moreover have "set es \<inter> set (buckets (classify D R v e)) = {}"
    using Cons.prems by (auto simp: classify_set)
  ultimately show ?case
    using Cons.IH [of "classify D R v e"] Cons.prems by simp
qed

section \<open>Claims on the validator's counts and lists\<close>

text \<open>
  C1. For every non-blank input text, the result of \<open>validateEmails\<close> exists and the
  lengths of its lists \<open>valid\<close>, \<open>invalid\<close> and \<open>risky\<close> plus \<open>duplicates\<close> add up
  to \<open>total\<close>.
\<close>

theorem C1_partition_totals:
  "trim inputText \<noteq> [] \<Longrightarrow>
   \<exists>res. validateEmails D R inputText = Inr res
     \<and> int (length (valid res)) + int (length (invalid res)) + int (length (risky res))
         + duplicates res = total res"
proof -
  assume nb: "trim inputText \<noteq> []"
  let ?v = "classifyAll D R \<lparr>valid = [], invalid = [], risky = []\<rparr> (uniqueEmails inputText)"
  have "length (buckets ?v) = length (uniqueEmails inputText)"
    using classifyAll_length [of D R "\<lparr>valid = [], invalid = [], risky = []\<rparr>" "uniqueEmails inputText"]
    by (simp add: buckets_def)
  then have "int (length (valid ?v)) + int (length (invalid ?v)) + int (length (risky ?v))
      = int (length (uniqueEmails inputText))"
    by (simp add: buckets_def)
  then show ?thesis
    using nb by (simp add: validateEmails_def Let_def)
qed

theorem C1_partition_totals_witness:
  "trim ''A@B.com, a@b.com'' \<noteq> [] \<and>
   (\<exists>res. validateEmails {} {} ''A@B.com, a@b.com'' = Inr res
     \<and> int (length (valid res)) + int (length (invalid res)) + int (length (risky res))
         + duplicates res = total res)"
proof -
  have h: "trim ''A@B.com, a@b.com'' \<noteq> []" by code_simp
  show ?thesis using h C1_partition_totals [OF h, of "{}" "{}"] by simp
qed

text \<open>
  C5. On an empty or whitespace-only text \<open>validateEmails\<close> gives the input-required
  error and no classification result; \<open>handleExtract\<close> on the empty text returns the
  empty list, with no error.
\<close>

theorem C5_empty_input_guard:
  "list_all isWhiteSpace inputText \<Longrightarrow>
   validateEmails D R inputText = Inl InputRequired \<and> handleExtract [] = []"
  by (simp add: validateEmails_def handleExtract_def trim_Nil_iff)

theorem C5_empty_input_guard_witness:
  "list_all isWhiteSpace [CHR '' '', CHR '' '', CHR '' '', CHR 0x0A, CHR '' ''] \<and>
   validateEmails {} {} [CHR '' '', CHR '' '', CHR '' '', CHR 0x0A, CHR '' ''] = Inl InputRequired \<and>
   validateEmails {} {} [] = Inl InputRequired \<and> handleExtract [] = []"
proof -
  have h: "list_all isWhiteSpace [CHR '' '', CHR '' '', CHR '' '', CHR 0x0A, CHR '' '']"
    by (simp add: isWhiteSpace_def)
  have e: "list_all isWhiteSpace []" by simp
  show ?thesis
    using h C5_empty_input_guard [OF h, of "{}" "{}"] C5_empty_input_guard [OF e, of "{}" "{}"]
    by simp
qed

text \<open>
  C8. In every result of \<open>validateEmails\<close> no address is in more than one of the lists
  \<open>valid\<close>, \<open>invalid\<close> and \<open>risky\<close>, and no list holds an address twice.
\<close>

theorem C8_mutual_exclusivity:
  "validateEmails D R inputText = Inr res \<Longrightarrow>
   distinct (valid res) \<and> distinct (invalid res) \<and> distinct (risky res)
   \<and> set (valid res) \<inter> set (invalid res) = {}
   \<and> set (valid res) \<inter> set (risky res) = {}
   \<and> set (invalid res) \<inter> set (risky res) = {}"
proof -
  assume a: "validateEmails D R inputText = Inr res"
  let ?v = "classifyAll D R \<lparr>valid = [], invalid = [], risky = []\<rparr> (uniqueEmails inputText)"
  have "distinct (buckets ?v)"
    by (rule classifyAll_distinct) (simp_all add: buckets_def uniqueEmails_def newSet_distinct)
  moreover from a have "valid res = valid ?v" "invalid res = invalid ?v" "risky res = risky ?v"
    by (auto simp: validateEmails_def Let_def split: if_splits)
  ultimately show ?thesis by (auto simp: buckets_def)
qed

theorem C8_mutual_exclusivity_witness:
  "validateEmails {''mailinator.com''} {''admin''} ''a@b.com x@mailinator.com a@b.com nope admin@x.org''
     = Inr \<lparr>valid = [''a@b.com''], invalid = [''nope''],
             risky = [''x@mailinator.com'', ''admin@x.org''], total = 5, duplicates = 1\<rparr>
   \<and> distinct [''a@b.com''] \<and> distinct [''nope''] \<and> distinct [''x@mailinator.com'', ''admin@x.org'']
   \<and> set [''a@b.com''] \<inter> set [''nope''] = {}
   \<and> set [''a@b.com''] \<inter> set [''x@mailinator.com'', ''admin@x.org''] = {}
   \<and> set [''nope''] \<inter> set [''x@mailinator.com'', ''admin@x.org''] = {}"
proof -
  have h: "validateEmails {''mailinator.com''} {''admin''} ''a@b.com x@mailinator.com a@b.com nope admin@x.org''
     = Inr \<lparr>valid = [''a@b.com''], invalid = [''nope''],
             risky = [''x@mailinator.com'', ''admin@x.org''], total = 5, duplicates = 1\<rparr>"
    by code_simp
  show ?thesis using h C8_mutual_exclusivity [OF h] by simp
qed

section \<open>The validator's pattern and the split at the at-sign\<close>

lemma splitCharLoop_length:
  "length (splitCharLoop sep tok s) = Suc (length (filter (\<lambda>c. c = sep) s))"
  by (induction s arbitrary: tok) auto

lemma at_nth: "at xs i = (if i < length xs then Some (xs ! i) else None)"
  by (induction xs i rule: at.induct) auto

lemma validator_passes:
  assumes "regexTest False validatorRegex s"
  shows "\<exists>r2. CHR ''@'' # r2 \<in> set (ends False (length s) (Alt dotAtom quotedString) s)
           \<and> [] \<in> set (ends False (length s) (Alt ipLiteral hostName) r2)"
proof -
  from assms have "ends False (length s)
      (Seq (Alt dotAtom quotedString) (Seq (Lit CHR ''@'') (Seq (Alt ipLiteral hostName) Eol))) s \<noteq> []"
    by (simp add: validatorRegex_def regexTest_Bol)
  then obtain r where "r \<in> set (ends False (length s)
      (Seq (Alt dotAtom quotedString) (Seq (Lit CHR ''@'') (Seq (Alt ipLiteral hostName) Eol))) s)"
    by (meson last_in_set)
  then obtain r1 r2 r3 where r1: "r1 \<in> set (ends False (length s) (Alt dotAtom quotedString) s)"
    and r2: "r2 \<in> set (ends False (length s) (Lit CHR ''@'') r1)"
    and r3: "r3 \<in> set (ends False (length s) (Alt ipLiteral hostName) r2)"
    and r: "r \<in> set (ends False (length s) Eol r3)"
    by (auto simp del: ends.simps(1,6,8))
  from r2 have "r1 = CHR ''@'' # r2"
    by (auto simp: sameChar_def split: list.splits if_splits)
  moreover from r have "r3 = []"
    by (auto split: if_splits)
  ultimately show ?thesis using r1 r3 by blast
qed

lemma avoids_at_dotAtom: "avoids False CHR ''@'' dotAtom"
  by code_simp

lemma avoids_at_domain: "avoids False CHR ''@'' (Alt ipLiteral hostName)"
  by code_simp

lemma quotedString_start:
  "r \<in> set (ends False n quotedString s) \<Longrightarrow> \<exists>t. s = CHR 0x22 # t"
  by (cases s) (auto simp: quotedString_def sameChar_def simp del: ends.simps(2) split: if_splits)

lemma passes_has_at:
  assumes "regexTest False validatorRegex s"
  shows "CHR ''@'' \<in> set s"
proof -
  from validator_passes [OF assms] obtain r2
    where "CHR ''@'' # r2 \<in> set (ends False (length s) (Alt dotAtom quotedString) s)" by blast
  from ends_suffix [OF this] show ?thesis by auto
qed

lemma passes_one_at:
  assumes "regexTest False validatorRegex s" and nq: "\<not> (\<exists>t. s = CHR 0x22 # t)"
  shows "length (filter (\<lambda>c. c = CHR ''@'') s) = 1"
proof -
  from validator_passes [OF assms(1)] obtain r2
    where r1: "CHR ''@'' # r2 \<in> set (ends False (length s) (Alt dotAtom quotedString) s)"
      and r3: "[] \<in> set (ends False (length s) (Alt ipLiteral hostName) r2)" by blast
  from r1 nq have "CHR ''@'' # r2 \<in> set (ends False (length s) dotAtom s)"
    using quotedString_start [of "CHR ''@'' # r2" "length s" s] by auto
  from ends_avoids [OF avoids_at_dotAtom this] obtain p1
    where p1: "s = p1 @ CHR ''@'' # r2" "CHR ''@'' \<notin> set p1" by blast
  from ends_avoids [OF avoids_at_domain r3] have "CHR ''@'' \<notin> set r2" by auto
  with p1 show ?thesis
    by (auto simp: filter_empty_conv)
qed


lemma splitCharLoop_no_sep:
  "sep \<notin> set p \<Longrightarrow> splitCharLoop sep tok (p @ rest) = splitCharLoop sep (tok @ p) rest"
  by (induction p arbitrary: tok) auto

lemma passes_split_single:
  assumes "regexTest False validatorRegex s" and nq: "\<not> (\<exists>t. s = CHR 0x22 # t)"
  shows "\<exists>user domain. s = user @ CHR ''@'' # domain \<and> CHR ''@'' \<notin> set user
           \<and> CHR ''@'' \<notin> set domain \<and> splitChar CHR ''@'' s = [user, domain]"
proof -
  from validator_passes [OF assms(1)] obtain r2
    where r1: "CHR ''@'' # r2 \<in> set (ends False (length s) (Alt dotAtom quotedString) s)"
      and r3: "[] \<in> set (ends False (length s) (Alt ipLiteral hostName) r2)" by blast
  from r1 nq have "CHR ''@'' # r2 \<in> set (ends False (length s) dotAtom s)"
    using quotedString_start [of "CHR ''@'' # r2" "length s" s] by auto
  from ends_avoids [OF avoids_at_dotAtom this] obtain p1
    where p1: "s = p1 @ CHR ''@'' # r2" "CHR ''@'' \<notin> set p1" by blast
  from ends_avoids [OF avoids_at_domain r3] have n2: "CHR ''@'' \<notin> set r2" by auto
  have "splitChar CHR ''@'' s = splitCharLoop CHR ''@'' p1 (CHR ''@'' # r2)"
    using splitCharLoop_no_sep [OF p1(2), of "[]" "CHR ''@'' # r2"] by (simp add: splitChar_def p1(1))
  also have "\<dots> = p1 # splitCharLoop CHR ''@'' [] (r2 @ [])" by simp
  also have "\<dots> = [p1, r2]" by (simp only: splitCharLoop_no_sep [OF n2]) simp
  finally show ?thesis using p1 n2 by blast
qed

lemma specSplit_none: "CHR ''@'' \<notin> set d \<Longrightarrow> specSplit d = None"
  by (induction d) auto

lemma specSplit_last:
  "CHR ''@'' \<notin> set d \<Longrightarrow> specSplit (l @ CHR ''@'' # d) = Some (l, d)"
  by (induction l) (simp_all add: specSplit_none)

lemma specSplit_Some:
  "specSplit s = Some (l, d) \<Longrightarrow> s = l @ CHR ''@'' # d \<and> CHR ''@'' \<notin> set d"
proof (induction s arbitrary: l)
  case Nil
  then show ?case by simp
next
  case (Cons c cs)
  show ?case
  proof (cases "specSplit cs")
    case None
    with Cons.prems have "c = CHR ''@''" "l = []" "d = cs"
      by (auto split: if_splits)
    moreover have "CHR ''@'' \<notin> set cs"
    proof
      assume "CHR ''@'' \<in> set cs"
      then obtain u v where "cs = u @ CHR ''@'' # v" "CHR ''@'' \<notin> set v"
        by (meson split_list_last)
      then have "specSplit cs = Some (u, v)" by (simp add: specSplit_last)
      with None show False by simp
    qed
    ultimately show ?thesis by simp
  next
    case (Some p)
    obtain l' d' where p: "p = (l', d')" by (cases p)
    with Some Cons.prems have "l = c # l'" "d = d'" by auto
    with Cons.IH [of l'] Some p show ?thesis by simp
  qed
qed

lemma one_sep_split:
  assumes "length (filter (\<lambda>c. c = sep) s) = 1"
  shows "\<exists>u d. s = u @ sep # d \<and> sep \<notin> set u \<and> sep \<notin> set d"
proof -
  from assms have "filter (\<lambda>c. c = sep) s \<noteq> []" by auto
  then have "sep \<in> set s" by (auto simp: filter_empty_conv)
  then obtain u d where s: "s = u @ sep # d" "sep \<notin> set u" by (meson split_list_first)
  then have "filter (\<lambda>c. c = sep) u = []" by (auto simp: filter_empty_conv)
  with assms s(1) have "filter (\<lambda>c. c = sep) d = []" by simp
  then have "sep \<notin> set d" by (auto simp: filter_empty_conv)
  with s show ?thesis by blast
qed

lemma splitChar_two:
  assumes "sep \<notin> set u" "sep \<notin> set d"
  shows "splitChar sep (u @ sep # d) = [u, d]"
proof -
  have "splitChar sep (u @ sep # d) = splitCharLoop sep u (sep # d)"
    using splitCharLoop_no_sep [OF assms(1), of "[]" "sep # d"] by (simp add: splitChar_def)
  also have "\<dots> = u # splitCharLoop sep [] (d @ [])" by simp
  also have "\<dots> = [u, d]" by (simp only: splitCharLoop_no_sep [OF assms(2)]) simp
  finally show ?thesis .
qed

lemma passes_specSplit:
  assumes "regexTest False validatorRegex s"
  shows "\<exists>l d. specSplit s = Some (l, d)
           \<and> [] \<in> set (ends False (length s) (Alt ipLiteral hostName) d)"
proof -
  from validator_passes [OF assms] obtain r2
    where r1: "CHR ''@'' # r2 \<in> set (ends False (length s) (Alt dotAtom quotedString) s)"
      and r3: "[] \<in> set (ends False (length s) (Alt ipLiteral hostName) r2)" by blast
  from ends_suffix [OF r1] obtain p where p: "s = p @ CHR ''@'' # r2" by blast
  from ends_avoids [OF avoids_at_domain r3] have "CHR ''@'' \<notin> set r2" by auto
  then have "specSplit s = Some (p, r2)" by (simp add: p specSplit_last)
  with r3 show ?thesis by blast
qed

lemma classify_invalid:
  "invalid (classify D R v e) = (if regexTest False validatorRegex e then invalid v else invalid v @ [e])"
  by (simp add: classify_def Let_def)

lemma classify_valid:
  "valid (classify D R v e) =
     (if regexTest False validatorRegex e
         \<and> \<not> (has D (at (splitChar CHR ''@'' e) 1) \<or> has R (at (splitChar CHR ''@'' e) 0))
      then valid v @ [e] else valid v)"
  by (simp add: classify_def Let_def)

lemma classify_risky:
  "risky (classify D R v e) =
     (if regexTest False validatorRegex e
         \<and> (has D (at (splitChar CHR ''@'' e) 1) \<or> has R (at (splitChar CHR ''@'' e) 0))
      then risky v @ [e] else risky v)"
  by (simp add: classify_def Let_def)

lemma classifyAll_invalid:
  "set (invalid (classifyAll D R v es)) =
     set (invalid v) \<union> {e \<in> set es. \<not> regexTest False validatorRegex e}"
  by (induction es arbitrary: v) (auto simp: classify_invalid)

lemma classifyAll_valid:
  "set (valid (classifyAll D R v es)) =
     set (valid v) \<union> {e \<in> set es. regexTest False validatorRegex e
         \<and> \<not> (has D (at (splitChar CHR ''@'' e) 1) \<or> has R (at (splitChar CHR ''@'' e) 0))}"
  by (induction es arbitrary: v) (auto simp: classify_valid)

lemma classifyAll_risky:
  "set (risky (classifyAll D R v es)) =
     set (risky v) \<union> {e \<in> set es. regexTest False validatorRegex e
         \<and> (has D (at (splitChar CHR ''@'' e) 1) \<or> has R (at (splitChar CHR ''@'' e) 0))}"
  by (induction es arbitrary: v) (auto simp: classify_risky)

lemma validateEmails_Inr:
  "validateEmails D R inputText = Inr res \<Longrightarrow>
   valid res = valid (classifyAll D R \<lparr>valid = [], invalid = [], risky = []\<rparr> (uniqueEmails inputText))
   \<and> invalid res = invalid (classifyAll D R \<lparr>valid = [], invalid = [], risky = []\<rparr> (uniqueEmails inputText))
   \<and> risky res = risky (classifyAll D R \<lparr>valid = [], invalid = [], risky = []\<rparr> (uniqueEmails inputText))"
  by (auto simp: validateEmails_def Let_def split: if_splits)

section \<open>Claims on the validator's pattern\<close>

text \<open>
  C10, as stated, fails in what it says of the two parts: the token below passes the
  validator's pattern with the quoted local part \<^verbatim>\<open>"x@y"\<close> and the domain
  \<^verbatim>\<open>example.org\<close>, and the parts of index 0 and 1 of its split on the at-sign are the
  two fragments of the quoted local part, not the local part and the domain.
\<close>

theorem C10_counterexample:
  "regexTest False validatorRegex (CHR 0x22 # ''x@y'' @ CHR 0x22 # ''@example.org'')
   \<and> specSplit (CHR 0x22 # ''x@y'' @ CHR 0x22 # ''@example.org'')
       = Some (CHR 0x22 # ''x@y'' @ [CHR 0x22], ''example.org'')
   \<and> at (splitChar CHR ''@'' (CHR 0x22 # ''x@y'' @ CHR 0x22 # ''@example.org'')) 0
       = Some [CHR 0x22, CHR ''x'']
   \<and> at (splitChar CHR ''@'' (CHR 0x22 # ''x@y'' @ CHR 0x22 # ''@example.org'')) 1
       = Some [CHR ''y'', CHR 0x22]
   \<and> [CHR 0x22, CHR ''x''] \<noteq> CHR 0x22 # ''x@y'' @ [CHR 0x22]
   \<and> [CHR ''y'', CHR 0x22] \<noteq> ''example.org''"
  by code_simp

text \<open>
  C10, amended. Every token that passes the validator's pattern contains an at-sign, so
  the parts of index 0 and 1 of its split on the at-sign are both defined: the lookups in
  the two sets are never asked for \<^verbatim>\<open>undefined\<close>. When the token has exactly one
  at-sign, the split has these two parts only and they are the local part and the domain
  of the specification's split; a passing token that does not begin with a double quote
  has exactly one at-sign.
\<close>

theorem C10_split_parts:
  "regexTest False validatorRegex email \<Longrightarrow>
   CHR ''@'' \<in> set email
   \<and> (\<exists>user domain. at (splitChar CHR ''@'' email) 0 = Some user
         \<and> at (splitChar CHR ''@'' email) 1 = Some domain
         \<and> (length (filter (\<lambda>c. c = CHR ''@'') email) = 1 \<longrightarrow>
               splitChar CHR ''@'' email = [user, domain]
               \<and> specSplit email = Some (user, domain)))
   \<and> (\<not> (\<exists>t. email = CHR 0x22 # t) \<longrightarrow> length (filter (\<lambda>c. c = CHR ''@'') email) = 1)"
proof -
  assume a: "regexTest False validatorRegex email"
  have m: "CHR ''@'' \<in> set email" by (rule passes_has_at [OF a])
  then have "filter (\<lambda>c. c = CHR ''@'') email \<noteq> []"
    by (simp add: filter_empty_conv)
  then have "0 < length (filter (\<lambda>c. c = CHR ''@'') email)" by simp
  then have len: "1 < length (splitChar CHR ''@'' email)"
    by (simp add: splitChar_def splitCharLoop_length)
  then have "at (splitChar CHR ''@'' email) 0 = Some (splitChar CHR ''@'' email ! 0)"
      "at (splitChar CHR ''@'' email) 1 = Some (splitChar CHR ''@'' email ! 1)"
    by (auto simp: at_nth)
  then obtain user domain where ud: "at (splitChar CHR ''@'' email) 0 = Some user"
      "at (splitChar CHR ''@'' email) 1 = Some domain"
    by blast
  have one: "splitChar CHR ''@'' email = [user, domain] \<and> specSplit email = Some (user, domain)"
    if "length (filter (\<lambda>c. c = CHR ''@'') email) = 1"
  proof -
    from one_sep_split [OF that] obtain u d
      where e: "email = u @ CHR ''@'' # d" "CHR ''@'' \<notin> set u" "CHR ''@'' \<notin> set d" by blast
    have sp: "splitChar CHR ''@'' email = [u, d]"
      unfolding e(1) by (rule splitChar_two [OF e(2,3)])
    with ud have "user = u" "domain = d" by simp_all
    with sp e show ?thesis by (simp add: specSplit_last)
  qed
  have nq: "length (filter (\<lambda>c. c = CHR ''@'') email) = 1" if "\<not> (\<exists>t. email = CHR 0x22 # t)"
    by (rule passes_one_at [OF a that])
  from m ud one nq show ?thesis by blast
qed

theorem C10_split_parts_witness:
  "regexTest False validatorRegex ''jane.doe@example.com''
   \<and> \<not> (\<exists>t. ''jane.doe@example.com'' = CHR 0x22 # t)
   \<and> length (filter (\<lambda>c. c = CHR ''@'') ''jane.doe@example.com'') = 1
   \<and> CHR ''@'' \<in> set ''jane.doe@example.com''
   \<and> at (splitChar CHR ''@'' ''jane.doe@example.com'') 0 = Some ''jane.doe''
   \<and> at (splitChar CHR ''@'' ''jane.doe@example.com'') 1 = Some ''example.com''
   \<and> splitChar CHR ''@'' ''jane.doe@example.com'' = [''jane.doe'', ''example.com'']
   \<and> specSplit ''jane.doe@example.com'' = Some (''jane.doe'', ''example.com'')"
proof -
  have h: "regexTest False validatorRegex ''jane.doe@example.com''" by code_simp
  have nq: "\<not> (\<exists>t. ''jane.doe@example.com'' = CHR 0x22 # t)" by simp
  from C10_split_parts [OF h] nq
  have one: "length (filter (\<lambda>c. c = CHR ''@'') ''jane.doe@example.com'') = 1" by blast
  from C10_split_parts [OF h] one obtain user domain
    where ud: "at (splitChar CHR ''@'' ''jane.doe@example.com'') 0 = Some user"
      "at (splitChar CHR ''@'' ''jane.doe@example.com'') 1 = Some domain"
      "splitChar CHR ''@'' ''jane.doe@example.com'' = [user, domain]"
      "specSplit ''jane.doe@example.com'' = Some (user, domain)"
    by blast
  have sp: "specSplit ''jane.doe@example.com'' = Some (''jane.doe'', ''example.com'')" by code_simp
  with ud(4) have "user = ''jane.doe''" "domain = ''example.com''" by simp_all
  with h nq one ud C10_split_parts [OF h] show ?thesis by simp
qed

text \<open>
  C3, as stated, fails: a token with two at-signs whose local part is a quoted string
  passes the validator's pattern, since the dot inside the quotes accepts the at-sign,
  and it is listed as valid.
\<close>

theorem C3_counterexample:
  "1 < length (filter (\<lambda>c. c = CHR ''@'') (CHR 0x22 # ''a@b'' @ CHR 0x22 # ''@example.com''))
   \<and> regexTest False validatorRegex (CHR 0x22 # ''a@b'' @ CHR 0x22 # ''@example.com'')
   \<and> validateEmails {''mailinator.com''} {''admin''} (CHR 0x22 # ''a@b'' @ CHR 0x22 # ''@example.com'')
       = Inr \<lparr>valid = [CHR 0x22 # ''a@b'' @ CHR 0x22 # ''@example.com''], invalid = [], risky = [],
               total = 1, duplicates = 0\<rparr>"
  by code_simp

text \<open>
  C3, amended. Every unique token with more than one at-sign that does not begin with a
  double quote fails the validator's pattern and is in the list \<open>invalid\<close>, not in
  \<open>valid\<close> or \<open>risky\<close>.
\<close>

theorem C3_multiple_at_unquoted:
  "validateEmails D R inputText = Inr res \<Longrightarrow> email \<in> set (uniqueEmails inputText) \<Longrightarrow>
   1 < length (filter (\<lambda>c. c = CHR ''@'') email) \<Longrightarrow> \<not> (\<exists>t. email = CHR 0x22 # t) \<Longrightarrow>
   \<not> regexTest False validatorRegex email
   \<and> email \<in> set (invalid res) \<and> email \<notin> set (valid res) \<and> email \<notin> set (risky res)"
proof -
  assume a: "validateEmails D R inputText = Inr res" and u: "email \<in> set (uniqueEmails inputText)"
    and c: "1 < length (filter (\<lambda>c. c = CHR ''@'') email)" and nq: "\<not> (\<exists>t. email = CHR 0x22 # t)"
  have f: "\<not> regexTest False validatorRegex email"
    using passes_one_at [OF _ nq] c by auto
  with u show ?thesis
    by (simp add: validateEmails_Inr [OF a] classifyAll_invalid classifyAll_valid classifyAll_risky)
qed

theorem C3_multiple_at_unquoted_witness:
  "validateEmails {''mailinator.com''} {''admin''} ''x@y.org A@b@c.com''
     = Inr \<lparr>valid = [''x@y.org''], invalid = [''a@b@c.com''], risky = [], total = 2, duplicates = 0\<rparr>
   \<and> ''a@b@c.com'' \<in> set (uniqueEmails ''x@y.org A@b@c.com'')
   \<and> 1 < length (filter (\<lambda>c. c = CHR ''@'') ''a@b@c.com'') \<and> \<not> (\<exists>t. ''a@b@c.com'' = CHR 0x22 # t)
   \<and> \<not> regexTest False validatorRegex ''a@b@c.com''
   \<and> ''a@b@c.com'' \<in> set [''a@b@c.com''] \<and> ''a@b@c.com'' \<notin> set [''x@y.org'']
   \<and> ''a@b@c.com'' \<notin> set ([] :: string list)"
proof -
  have h: "validateEmails {''mailinator.com''} {''admin''} ''x@y.org A@b@c.com''
     = Inr \<lparr>valid = [''x@y.org''], invalid = [''a@b@c.com''], risky = [], total = 2, duplicates = 0\<rparr>"
    by code_simp
  have u: "''a@b@c.com'' \<in> set (uniqueEmails ''x@y.org A@b@c.com'')" by code_simp
  have c: "1 < length (filter (\<lambda>c. c = CHR ''@'') ''a@b@c.com'')" by simp
  have nq: "\<not> (\<exists>t. ''a@b@c.com'' = CHR 0x22 # t)" by simp
  show ?thesis using h u c nq C3_multiple_at_unquoted [OF h u c nq] by simp
qed

text \<open>
  C2. The claim splits a passing token at its last at-sign. The source reads the parts
  of index 0 and 1 of the split at every at-sign, which are the local part and the domain
  when the token does not begin with a double quote (\<open>passes_split_single\<close>). For a token with a quoted
  local part that holds an at-sign, such as the one below, index 1 is not the domain:
  whenever the domain \<^verbatim>\<open>mailinator.com\<close> is listed as disposable (and the two fragments
  of the quoted local part are not listed), the address passes the pattern and is put in
  \<open>valid\<close>.
\<close>

theorem C2_quoted_local_part:
  "''mailinator.com'' \<in> D \<Longrightarrow> [CHR ''b'', CHR 0x22] \<notin> D \<Longrightarrow> [CHR 0x22, CHR ''a''] \<notin> R \<Longrightarrow>
   regexTest False validatorRegex (CHR 0x22 # ''a@b'' @ CHR 0x22 # ''@mailinator.com'')
   \<and> splitChar CHR ''@'' (CHR 0x22 # ''a@b'' @ CHR 0x22 # ''@mailinator.com'')
       = [[CHR 0x22, CHR ''a''], [CHR ''b'', CHR 0x22], ''mailinator.com'']
   \<and> validateEmails D R (CHR 0x22 # ''a@b'' @ CHR 0x22 # ''@mailinator.com'')
       = Inr \<lparr>valid = [CHR 0x22 # ''a@b'' @ CHR 0x22 # ''@mailinator.com''], invalid = [], risky = [],
               total = 1, duplicates = 0\<rparr>"
proof -
  assume d: "''mailinator.com'' \<in> D" "[CHR ''b'', CHR 0x22] \<notin> D" and r: "[CHR 0x22, CHR ''a''] \<notin> R"
  let ?s = "CHR 0x22 # ''a@b'' @ CHR 0x22 # ''@mailinator.com''"
  have t: "regexTest False validatorRegex ?s" by code_simp
  have sp: "splitChar CHR ''@'' ?s = [[CHR 0x22, CHR ''a''], [CHR ''b'', CHR 0x22], ''mailinator.com'']"
    by code_simp
  have nb: "trim ?s \<noteq> []" by code_simp
  have raw: "rawEmails ?s = [?s]" by code_simp
  have un: "uniqueEmails ?s = [?s]" by code_simp
  have "classify D R \<lparr>valid = [], invalid = [], risky = []\<rparr> ?s
      = \<lparr>valid = [?s], invalid = [], risky = []\<rparr>"
    using t d(2) r by (simp only: classify_def sp Let_def) simp
  then have "validateEmails D R ?s
      = Inr \<lparr>valid = [?s], invalid = [], risky = [], total = 1, duplicates = 0\<rparr>"
    using nb by (simp only: validateEmails_def raw un Let_def classifyAll.simps) simp
  with t sp show ?thesis by simp
qed

theorem C2_quoted_local_part_witness:
  "''mailinator.com'' \<in> {''mailinator.com''} \<and> [CHR ''b'', CHR 0x22] \<notin> {''mailinator.com''}
   \<and> [CHR 0x22, CHR ''a''] \<notin> {''admin''}
   \<and> regexTest False validatorRegex (CHR 0x22 # ''a@b'' @ CHR 0x22 # ''@mailinator.com'')
   \<and> splitChar CHR ''@'' (CHR 0x22 # ''a@b'' @ CHR 0x22 # ''@mailinator.com'')
       = [[CHR 0x22, CHR ''a''], [CHR ''b'', CHR 0x22], ''mailinator.com'']
   \<and> validateEmails {''mailinator.com''} {''admin''} (CHR 0x22 # ''a@b'' @ CHR 0x22 # ''@mailinator.com'')
       = Inr \<lparr>valid = [CHR 0x22 # ''a@b'' @ CHR 0x22 # ''@mailinator.com''], invalid = [], risky = [],
               total = 1, duplicates = 0\<rparr>"
proof -
  have a: "''mailinator.com'' \<in> {''mailinator.com''}" by simp
  have b: "[CHR ''b'', CHR 0x22] \<notin> {''mailinator.com''}" by simp
  have c: "[CHR 0x22, CHR ''a''] \<notin> {''admin''}" by simp
  show ?thesis using a b c C2_quoted_local_part [OF a b c] by simp
qed

text \<open>
  C4, as stated, fails: the split of a text that ends with a newline has an empty last
  token, which the filter drops before the count; \<open>total\<close> is 1 and the split has
  two tokens.
\<close>

theorem C4_counterexample:
  "splitRegex False separatorRegex (''a@b.com'' @ [CHR 0x0A]) = [''a@b.com'', []]
   \<and> validateEmails {} {} (''a@b.com'' @ [CHR 0x0A])
       = Inr \<lparr>valid = [''a@b.com''], invalid = [], risky = [], total = 1, duplicates = 0\<rparr>
   \<and> (1 :: int) \<noteq> int (length [''a@b.com'', []])"
  by code_simp

text \<open>
  C4, amended. For every non-blank input, \<open>total\<close> is the number of tokens of the split
  that are not blank (the empty tokens of the split are not counted), and
  \<open>duplicates\<close> is \<open>total\<close> minus the number of different tokens after trimming and
  lower-casing.
\<close>

theorem C4_total_and_duplicates:
  "trim inputText \<noteq> [] \<Longrightarrow>
   \<exists>res. validateEmails D R inputText = Inr res
     \<and> total res = int (length (filter (\<lambda>e. trim e \<noteq> []) (splitRegex False separatorRegex inputText)))
     \<and> duplicates res = total res
         - int (card (set (map (\<lambda>e. toLowerCase (trim e))
             (filter (\<lambda>e. trim e \<noteq> []) (splitRegex False separatorRegex inputText)))))"
  by (simp add: validateEmails_def Let_def rawEmails_def uniqueEmails_def newSet_length)

theorem C4_total_and_duplicates_witness:
  "trim '' A@B.com, a@b.com '' \<noteq> [] \<and>
   (\<exists>res. validateEmails {} {} '' A@B.com, a@b.com '' = Inr res
     \<and> total res = int (length (filter (\<lambda>e. trim e \<noteq> []) (splitRegex False separatorRegex '' A@B.com, a@b.com '')))
     \<and> duplicates res = total res
         - int (card (set (map (\<lambda>e. toLowerCase (trim e))
             (filter (\<lambda>e. trim e \<noteq> []) (splitRegex False separatorRegex '' A@B.com, a@b.com ''))))))"
proof -
  have h: "trim '' A@B.com, a@b.com '' \<noteq> []" by code_simp
  show ?thesis using h C4_total_and_duplicates [OF h, of "{}" "{}"] by simp
qed

text \<open>
  C9. The two patterns differ: the extractor finds a token whose domain has an underscore,
  or two dots in a row, and the validator, given that token as its whole input,
  lists it as invalid, whatever the two sets are.
\<close>

theorem C9_patterns_diverge:
  "handleExtract ''a@b_c.com'' = [''a@b_c.com'']
   \<and> validateEmails D R ''a@b_c.com''
       = Inr \<lparr>valid = [], invalid = [''a@b_c.com''], risky = [], total = 1, duplicates = 0\<rparr>
   \<and> handleExtract ''a@b..com'' = [''a@b..com'']
   \<and> validateEmails D R ''a@b..com''
       = Inr \<lparr>valid = [], invalid = [''a@b..com''], risky = [], total = 1, duplicates = 0\<rparr>"
  by code_simp

section \<open>Characters of the extractor's class\<close>

lemma of_char_bound: "of_char c < (256 :: nat)"
  using of_char_mod_256 [of c, where ?'a = nat]
  by (metis mod_less_divisor zero_less_numeral)

lemma lowerChar_code:
  "of_char (lowerChar c) =
     (let n = (of_char c :: nat)
      in if (65 \<le> n \<and> n \<le> 90) \<or> (192 \<le> n \<and> n \<le> 222 \<and> n \<noteq> 215) then n + 32 else n)"
  by (auto simp: lowerChar_def Let_def)

lemma upperChar_code:
  "of_char (upperChar c) =
     (let n = (of_char c :: nat)
      in if (97 \<le> n \<and> n \<le> 122) \<or> (224 \<le> n \<and> n \<le> 254 \<and> n \<noteq> 247) then n - 32 else n)"
  using of_char_bound [of c] by (auto simp: upperChar_def Let_def)

lemma char_eq_code: "c = d \<longleftrightarrow> (of_char c :: nat) = of_char d"
  by simp

lemma lowerChar_idem: "lowerChar (lowerChar c) = lowerChar c"
  by (rule of_char_eqI [where ?'a = nat]) (simp add: lowerChar_code Let_def)

lemma inClass_loose:
  "inClass True looseChars c \<longleftrightarrow>
     (let n = (of_char c :: nat)
      in (97 \<le> n \<and> n \<le> 122) \<or> (65 \<le> n \<and> n \<le> 90) \<or> (48 \<le> n \<and> n \<le> 57)
         \<or> n = 46 \<or> n = 95 \<or> n = 45)"
  using of_char_bound [of c]
  by (simp add: inClass_def looseChars_def less_eq_char_def char_eq_code lowerChar_code upperChar_code Let_def
        del: of_char_eq_iff)
     arith

lemma loose_lower: "inClass True looseChars c \<Longrightarrow> inClass True looseChars (lowerChar c)"
  by (simp add: inClass_loose lowerChar_code Let_def) arith

lemma loose_consts:
  "\<not> inClass True looseChars CHR ''@''" "\<not> inClass True looseChars (CHR 0x0A)"
  "inClass True looseChars CHR ''.''"
  by (simp_all add: inClass_loose)

lemma sameChar_at: "sameChar True CHR ''@'' c \<longleftrightarrow> c = CHR ''@''"
  by (simp add: sameChar_def char_eq_code upperChar_code Let_def del: of_char_eq_iff) arith

lemma sameChar_dot: "sameChar True CHR ''.'' c \<longleftrightarrow> c = CHR ''.''"
  by (simp add: sameChar_def char_eq_code upperChar_code Let_def del: of_char_eq_iff) arith

lemma lower_consts: "lowerChar CHR ''@'' = CHR ''@''" "lowerChar CHR ''.'' = CHR ''.''"
  by (simp_all add: lowerChar_def)


text \<open>
  The equations of the two loops have no pattern on their left: they are unfolded by
  hand.
\<close>

declare matchAll.simps [simp del]

declare splitLoop.simps [simp del]

lemma ends_Star_Cls_Nil: "ends ic n (Rep 0 None (Cls A)) [] = [[]]"
  by (simp add: ends.simps(9))

lemma ends_Star_Cls_Cons:
  "ends ic n (Rep 0 None (Cls A)) (c # cs)
     = (if inClass ic A c then ends ic n (Rep 0 None (Cls A)) cs @ [c # cs] else [c # cs])"
  by (simp add: ends.simps(9) [of ic n 0 None "Cls A" "c # cs"])

lemma ends_Plus_Cls_Nil: "ends ic n (Rep (Suc 0) None (Cls A)) [] = []"
  by (simp add: ends.simps(9))

lemma ends_Plus_Cls_Cons:
  "ends ic n (Rep (Suc 0) None (Cls A)) (c # cs)
     = (if inClass ic A c then ends ic n (Rep 0 None (Cls A)) cs else [])"
  by (simp add: ends.simps(9) [of ic n "Suc 0" None "Cls A" "c # cs"])

lemma ends_Star_Cls_set:
  "set (ends ic n (Rep 0 None (Cls A)) s) = {drop k s |k. k \<le> length (takeWhile (inClass ic A) s)}"
proof (induction s)
  case Nil
  show ?case by (simp add: ends_Star_Cls_Nil)
next
  case (Cons c cs)
  let ?L = "length (takeWhile (inClass ic A) cs)"
  have "{drop k (c # cs) |k. k \<le> Suc ?L} = insert (c # cs) {drop k cs |k. k \<le> ?L}"
  proof (intro set_eqI iffI)
    fix x assume "x \<in> {drop k (c # cs) |k. k \<le> Suc ?L}"
    then obtain k where k: "x = drop k (c # cs)" "k \<le> Suc ?L" by blast
    show "x \<in> insert (c # cs) {drop k cs |k. k \<le> ?L}"
    proof (cases k)
      case 0
      with k show ?thesis by simp
    next
      case (Suc k')
      with k have "x = drop k' cs \<and> k' \<le> ?L" by simp
      then show ?thesis by blast
    qed
  next
    fix x assume "x \<in> insert (c # cs) {drop k cs |k. k \<le> ?L}"
    then consider "x = drop 0 (c # cs)" | k where "x = drop (Suc k) (c # cs)" "Suc k \<le> Suc ?L"
      by auto
    then show "x \<in> {drop k (c # cs) |k. k \<le> Suc ?L}"
    proof cases
      case 1
      then show ?thesis by blast
    next
      case 2
      then show ?thesis by blast
    qed
  qed
  then show ?case
    by (simp add: ends_Star_Cls_Cons Cons.IH)
qed

lemma ends_Star_Cls_hd:
  "\<exists>ys. ends ic n (Rep 0 None (Cls A)) s = dropWhile (inClass ic A) s # ys"
proof (induction s)
  case Nil
  show ?case by (simp add: ends_Star_Cls_Nil)
next
  case (Cons c cs)
  then obtain ys where "ends ic n (Rep 0 None (Cls A)) cs = dropWhile (inClass ic A) cs # ys" by blast
  then show ?case by (simp add: ends_Star_Cls_Cons)
qed

lemma ends_Plus_Cls_set:
  "set (ends ic n (Rep (Suc 0) None (Cls A)) s)
     = {drop k s |k. 1 \<le> k \<and> k \<le> length (takeWhile (inClass ic A) s)}"
proof (cases s)
  case Nil
  then show ?thesis by (simp add: ends_Plus_Cls_Nil)
next
  case (Cons c cs)
  show ?thesis
  proof (cases "inClass ic A c")
    case True
    let ?L = "length (takeWhile (inClass ic A) cs)"
    have "{drop k (c # cs) |k. 1 \<le> k \<and> k \<le> Suc ?L} = {drop k cs |k. k \<le> ?L}"
    proof (intro set_eqI iffI)
      fix x assume "x \<in> {drop k (c # cs) |k. 1 \<le> k \<and> k \<le> Suc ?L}"
      then obtain k where k: "x = drop k (c # cs)" "1 \<le> k" "k \<le> Suc ?L" by blast
      then obtain k' where "k = Suc k'" by (cases k) auto
      with k have "x = drop k' cs \<and> k' \<le> ?L" by simp
      then show "x \<in> {drop k cs |k. k \<le> ?L}" by blast
    next
      fix x assume "x \<in> {drop k cs |k. k \<le> ?L}"
      then obtain k where "x = drop (Suc k) (c # cs)" "1 \<le> Suc k \<and> Suc k \<le> Suc ?L" by auto
      then show "x \<in> {drop k (c # cs) |k. 1 \<le> k \<and> k \<le> Suc ?L}" by blast
    qed
    then show ?thesis using True Cons
      by (simp add: ends_Plus_Cls_Cons ends_Star_Cls_set)
  next
    case False
    then show ?thesis using Cons by (simp add: ends_Plus_Cls_Cons)
  qed
qed

lemma ends_Plus_Cls_hd:
  assumes "takeWhile (inClass ic A) s \<noteq> []"
  shows "\<exists>ys. ends ic n (Rep (Suc 0) None (Cls A)) s = dropWhile (inClass ic A) s # ys"
proof (cases s)
  case Nil
  with assms show ?thesis by simp
next
  case (Cons c cs)
  with assms have P: "inClass ic A c" by (auto split: if_splits)
  obtain ys where "ends ic n (Rep 0 None (Cls A)) cs = dropWhile (inClass ic A) cs # ys"
    using ends_Star_Cls_hd by blast
  with P Cons show ?thesis by (simp add: ends_Plus_Cls_Cons)
qed

lemma concat_map_first:
  "(\<And>x. x \<in> set xs \<Longrightarrow> f x = [] \<or> (\<exists>ys. f x = v # ys)) \<Longrightarrow> \<exists>x\<in>set xs. f x \<noteq> []
   \<Longrightarrow> \<exists>ys. concat (map f xs) = v # ys"
proof (induction xs)
  case Nil
  then show ?case by simp
next
  case (Cons x xs)
  show ?case
  proof (cases "f x = []")
    case True
    with Cons.prems(2) have "\<exists>x\<in>set xs. f x \<noteq> []" by auto
    with Cons.IH Cons.prems(1) obtain ys where "concat (map f xs) = v # ys" by auto
    with True show ?thesis by simp
  next
    case False
    with Cons.prems(1) [of x] obtain ys where "f x = v # ys" by auto
    then show ?thesis by simp
  qed
qed


lemma ends_Plus_Cls_none:
  "takeWhile (inClass ic A) s = [] \<Longrightarrow> ends ic n (Rep (Suc 0) None (Cls A)) s = []"
  by (cases s) (auto simp: ends_Plus_Cls_Nil ends_Plus_Cls_Cons split: if_splits)

lemma ends_Plus_Cls_mem:
  assumes "r \<in> set (ends ic n (Rep (Suc 0) None (Cls A)) s)"
  shows "\<exists>p. s = p @ r \<and> p \<noteq> [] \<and> list_all (inClass ic A) p"
proof -
  from assms obtain k where k: "r = drop k s" "1 \<le> k" "k \<le> length (takeWhile (inClass ic A) s)"
    by (auto simp: ends_Plus_Cls_set)
  have le: "length (takeWhile (inClass ic A) s) \<le> length s" by (rule length_takeWhile_le)
  have "take k s = take k (takeWhile (inClass ic A) s @ dropWhile (inClass ic A) s)" by simp
  also have "\<dots> = take k (takeWhile (inClass ic A) s)" using k(3) by (simp del: takeWhile_dropWhile_id)
  finally have "set (take k s) \<subseteq> set (takeWhile (inClass ic A) s)" by (simp add: set_take_subset)
  then have "list_all (inClass ic A) (take k s)"
    by (auto simp: list_all_iff dest: set_takeWhileD)
  moreover have "take k s \<noteq> []" using k(2,3) le by auto
  moreover have "s = take k s @ r" using k(1) by simp
  ultimately show ?thesis by blast
qed

lemma ends_Plus_Cls_all:
  assumes "list_all (inClass ic A) D" "D \<noteq> []" "takeWhile (inClass ic A) rest = []"
  shows "\<exists>ys. ends ic n (Rep (Suc 0) None (Cls A)) (D @ rest) = rest # ys"
proof -
  from assms(1) have a: "\<And>x. x \<in> set D \<Longrightarrow> inClass ic A x" by (simp add: list_all_iff)
  have tw: "takeWhile (inClass ic A) (D @ rest) = D"
    using a assms(3) by (simp add: takeWhile_append2)
  have "dropWhile (inClass ic A) (D @ rest) = dropWhile (inClass ic A) rest"
    using a by (simp add: dropWhile_append2)
  also have "\<dots> = rest"
    using assms(3) by (cases rest) (auto split: if_splits)
  finally have dw: "dropWhile (inClass ic A) (D @ rest) = rest" .
  from ends_Plus_Cls_hd [of ic A "D @ rest" n] tw assms(2) dw show ?thesis by simp
qed

lemma dot_part_uniform:
  assumes "list_all looseChar D" "takeWhile looseChar rest = []"
  shows "ends True n (Seq (Lit CHR ''.'') (Rep (Suc 0) None (Cls looseChars))) (D @ rest) = []
    \<or> (\<exists>ys. ends True n (Seq (Lit CHR ''.'') (Rep (Suc 0) None (Cls looseChars))) (D @ rest) = rest # ys)"
proof (cases D)
  case Nil
  have "ends True n (Seq (Lit CHR ''.'') (Rep (Suc 0) None (Cls looseChars))) rest = []"
    using assms(2) loose_consts(3) by (cases rest) (auto simp: sameChar_dot split: if_splits)
  with Nil show ?thesis by simp
next
  case (Cons c D')
  show ?thesis
  proof (cases "c = CHR ''.''")
    case False
    with Cons show ?thesis by (simp add: sameChar_dot)
  next
    case True
    from assms(1) Cons have all: "list_all looseChar D'" by simp
    show ?thesis
    proof (cases "D' = []")
      case e: True
      with True Cons assms(2) show ?thesis
        by (simp add: sameChar_dot ends_Plus_Cls_none)
    next
      case False
      from ends_Plus_Cls_all [OF all False assms(2)] True Cons show ?thesis
        by (auto simp: sameChar_dot)
    qed
  qed
qed

lemma domain_part_first:
  assumes "list_all looseChar D1" "D1 \<noteq> []" "list_all looseChar D2" "D2 \<noteq> []"
    and "takeWhile looseChar rest = []"
  shows "\<exists>ys. ends True n (Seq (Rep (Suc 0) None (Cls looseChars))
                 (Seq (Lit CHR ''.'') (Rep (Suc 0) None (Cls looseChars))))
               (D1 @ CHR ''.'' # D2 @ rest) = rest # ys"
proof -
  define D where "D = D1 @ CHR ''.'' # D2"
  let ?g = "ends True n (Seq (Lit CHR ''.'') (Rep (Suc 0) None (Cls looseChars)))"
  have u: "D1 @ CHR ''.'' # D2 @ rest = D @ rest" by (simp add: D_def)
  have a: "\<And>x. x \<in> set D \<Longrightarrow> looseChar x"
    using assms(1,3) loose_consts(3) by (auto simp: D_def list_all_iff)
  have tw: "takeWhile looseChar (D @ rest) = D"
    using a assms(5) by (simp add: takeWhile_append2)
  have uni: "?g x = [] \<or> (\<exists>ys. ?g x = rest # ys)"
    if "x \<in> set (ends True n (Rep (Suc 0) None (Cls looseChars)) (D @ rest))" for x
  proof -
    from that obtain k where k: "x = drop k (D @ rest)" "k \<le> length D"
      by (auto simp only: ends_Plus_Cls_set tw)
    then have x: "x = drop k D @ rest" by simp
    have "list_all looseChar (drop k D)"
      using a by (auto simp: list_all_iff dest: in_set_dropD)
    from dot_part_uniform [OF this assms(5)] x show ?thesis by simp
  qed
  have hit: "\<exists>x\<in>set (ends True n (Rep (Suc 0) None (Cls looseChars)) (D @ rest)). ?g x \<noteq> []"
  proof -
    have "drop (length D1) (D @ rest) = CHR ''.'' # D2 @ rest" by (simp add: D_def)
    moreover have "1 \<le> length D1 \<and> length D1 \<le> length D" using assms(2) by (cases D1) (auto simp: D_def)
    ultimately have "\<exists>k. CHR ''.'' # D2 @ rest = drop k (D @ rest) \<and> 1 \<le> k \<and> k \<le> length D"
      by metis
    then have m: "CHR ''.'' # D2 @ rest
        \<in> set (ends True n (Rep (Suc 0) None (Cls looseChars)) (D @ rest))"
      by (simp only: ends_Plus_Cls_set tw mem_Collect_eq)
    from ends_Plus_Cls_all [OF assms(3,4,5), of n] have "?g (CHR ''.'' # D2 @ rest) \<noteq> []"
      by (auto simp: sameChar_dot)
    with m show ?thesis by blast
  qed
  have "\<exists>ys. concat (map ?g (ends True n (Rep (Suc 0) None (Cls looseChars)) (D @ rest))) = rest # ys"
  proof (rule concat_map_first)
    fix x assume "x \<in> set (ends True n (Rep (Suc 0) None (Cls looseChars)) (D @ rest))"
    then show "?g x = [] \<or> (\<exists>ys. ?g x = rest # ys)" by (rule uni)
  next
    show "\<exists>x\<in>set (ends True n (Rep (Suc 0) None (Cls looseChars)) (D @ rest)). ?g x \<noteq> []"
      by (rule hit)
  qed
  then show ?thesis unfolding u by (simp only: ends.simps(7))
qed

lemma extractor_first:
  assumes "shaped e" "takeWhile looseChar rest = []"
  shows "\<exists>ys. ends True n extractorRegex (e @ rest) = rest # ys"
proof -
  from assms(1) obtain L D1 D2 where e: "e = L @ CHR ''@'' # D1 @ CHR ''.'' # D2"
    and ne: "L \<noteq> []" "D1 \<noteq> []" "D2 \<noteq> []"
    and al: "list_all looseChar L" "list_all looseChar D1" "list_all looseChar D2"
    by (auto simp: shaped_def)
  let ?u = "D1 @ CHR ''.'' # D2 @ rest"
  have tw: "takeWhile looseChar (CHR ''@'' # ?u) = []" using loose_consts(1) by simp
  from ends_Plus_Cls_all [OF al(1) ne(1) tw] obtain zs
    where 1: "ends True n (Rep (Suc 0) None (Cls looseChars)) (L @ CHR ''@'' # ?u) = (CHR ''@'' # ?u) # zs"
    by blast
  from domain_part_first [OF al(2) ne(2) al(3) ne(3) assms(2)] obtain ys
    where 2: "ends True n (Seq (Rep (Suc 0) None (Cls looseChars))
                 (Seq (Lit CHR ''.'') (Rep (Suc 0) None (Cls looseChars)))) ?u = rest # ys"
    by blast
  have "e @ rest = L @ CHR ''@'' # ?u" using e by simp
  then show ?thesis
    using 2 by (simp add: extractorRegex_def 1 sameChar_at)
qed


lemma extractor_none:
  "takeWhile looseChar s = [] \<Longrightarrow> ends True n extractorRegex s = []"
  by (simp add: extractorRegex_def ends_Plus_Cls_none)

lemma extractor_shape:
  assumes "r \<in> set (ends True n extractorRegex s)"
  shows "\<exists>m. s = m @ r \<and> shaped m"
proof -
  let ?C = "Rep (Suc 0) None (Cls looseChars)"
  from assms obtain r1 r2 r3 r4 where r1: "r1 \<in> set (ends True n ?C s)"
    and r2: "r2 \<in> set (ends True n (Lit CHR ''@'') r1)"
    and r3: "r3 \<in> set (ends True n ?C r2)"
    and r4: "r4 \<in> set (ends True n (Lit CHR ''.'') r3)"
    and r: "r \<in> set (ends True n ?C r4)"
    by (auto simp: extractorRegex_def simp del: ends.simps(1))
  from r2 have e2: "r1 = CHR ''@'' # r2"
    by (auto simp: sameChar_at split: list.splits if_splits)
  from r4 have e4: "r3 = CHR ''.'' # r4"
    by (auto simp: sameChar_dot split: list.splits if_splits)
  from ends_Plus_Cls_mem [OF r1] obtain L where L: "s = L @ r1" "L \<noteq> []" "list_all looseChar L"
    by blast
  from ends_Plus_Cls_mem [OF r3] obtain D1 where D1: "r2 = D1 @ r3" "D1 \<noteq> []" "list_all looseChar D1"
    by blast
  from ends_Plus_Cls_mem [OF r] obtain D2 where D2: "r4 = D2 @ r" "D2 \<noteq> []" "list_all looseChar D2"
    by blast
  have "s = (L @ CHR ''@'' # D1 @ CHR ''.'' # D2) @ r"
    using L(1) D1(1) D2(1) e2 e4 by simp
  moreover have "shaped (L @ CHR ''@'' # D1 @ CHR ''.'' # D2)"
    unfolding shaped_def using L(2,3) D1(2,3) D2(2,3) by blast
  ultimately show ?thesis by blast
qed

lemma shaped_nonempty: "shaped m \<Longrightarrow> m \<noteq> []"
  by (auto simp: shaped_def)

lemma shaped_has_at: "shaped m \<Longrightarrow> CHR ''@'' \<in> set m"
  by (auto simp: shaped_def)

lemma shaped_lower: "shaped m \<Longrightarrow> shaped (toLowerCase m)"
proof -
  assume "shaped m"
  then obtain L D1 D2 where m: "m = L @ CHR ''@'' # D1 @ CHR ''.'' # D2"
    and ne: "L \<noteq> []" "D1 \<noteq> []" "D2 \<noteq> []"
    and al: "list_all looseChar L" "list_all looseChar D1" "list_all looseChar D2"
    by (auto simp: shaped_def)
  have low: "list_all looseChar (map lowerChar xs)" if "list_all looseChar xs" for xs
    using that by (auto simp: list_all_iff loose_lower)
  have "toLowerCase m = map lowerChar L @ CHR ''@'' # map lowerChar D1 @ CHR ''.'' # map lowerChar D2"
    by (simp add: m toLowerCase_def lower_consts)
  moreover have "map lowerChar L \<noteq> []" "map lowerChar D1 \<noteq> []" "map lowerChar D2 \<noteq> []"
    using ne by simp_all
  ultimately show ?thesis
    unfolding shaped_def using low [OF al(1)] low [OF al(2)] low [OF al(3)] by blast
qed

lemma toLowerCase_idem: "toLowerCase (toLowerCase m) = toLowerCase m"
  by (simp add: toLowerCase_def lowerChar_idem)

lemma matchAll_shaped:
  "m \<in> set (matchAll True n extractorRegex s) \<Longrightarrow> shaped m"
proof (induction s rule: length_induct)
  case (1 s)
  show ?case
  proof (cases "ends True n extractorRegex s")
    case Nil
    with "1.prems" obtain c cs where s: "s = c # cs" and m: "m \<in> set (matchAll True n extractorRegex cs)"
      by (subst (asm) matchAll.simps) (auto split: list.splits)
    from "1.IH" s m show ?thesis by auto
  next
    case (Cons e es)
    then have "e \<in> set (ends True n extractorRegex s)" by simp
    from extractor_shape [OF this] obtain m' where m': "s = m' @ e" "shaped m'" by blast
    then have lt: "length e < length s" using shaped_nonempty by auto
    have tk: "take (length s - length e) s = m'" using m'(1) by simp
    from "1.prems" Cons lt tk have "m = m' \<or> m \<in> set (matchAll True n extractorRegex e)"
      by (subst (asm) matchAll.simps) auto
    with "1.IH" lt m'(2) show ?thesis by auto
  qed
qed

lemma newline_stop: "takeWhile looseChar (CHR 0x0A # s) = []"
  using loose_consts(2) by simp

lemma matchAll_joinNewline:
  "list_all shaped E \<Longrightarrow> matchAll True n extractorRegex (joinNewline E) = E"
proof (induction E rule: joinNewline.induct)
  case 1
  show ?case by (subst matchAll.simps) (simp add: extractor_none)
next
  case (2 x)
  then have sh: "shaped x" by simp
  from extractor_first [OF sh, of "[]" n] obtain ys where "ends True n extractorRegex x = [] # ys"
    by auto
  moreover have "matchAll True n extractorRegex [] = []"
    by (subst matchAll.simps) (simp add: extractor_none)
  ultimately show ?case using shaped_nonempty [OF sh]
    by (subst matchAll.simps) simp
next
  case (3 x y ys)
  then have sh: "shaped x" and rest: "list_all shaped (y # ys)" by simp_all
  let ?J = "joinNewline (y # ys)"
  from extractor_first [OF sh newline_stop [of ?J], of n] obtain zs
    where e: "ends True n extractorRegex (x @ CHR 0x0A # ?J) = (CHR 0x0A # ?J) # zs" by blast
  have "matchAll True n extractorRegex (CHR 0x0A # ?J) = matchAll True n extractorRegex ?J"
    by (subst matchAll.simps) (simp add: extractor_none [OF newline_stop])
  also have "\<dots> = y # ys" by (rule "3.IH" [OF rest])
  finally have r: "matchAll True n extractorRegex (CHR 0x0A # ?J) = y # ys" .
  have "matchAll True n extractorRegex (x @ CHR 0x0A # ?J) = x # y # ys"
    using shaped_nonempty [OF sh] by (subst matchAll.simps) (simp add: e r)
  then show ?case by simp
qed

lemma handleExtract_elems:
  "e \<in> set (handleExtract t) \<Longrightarrow> shaped e \<and> toLowerCase e = e"
proof -
  assume "e \<in> set (handleExtract t)"
  then obtain m where m: "m \<in> set (matchAll True (length t) extractorRegex t)" and e: "e = toLowerCase m"
    by (auto simp: handleExtract_def Let_def newSet_set stringMatch_def split: if_splits)
  from matchAll_shaped [OF m] have "shaped m" .
  then show ?thesis using e by (simp add: shaped_lower toLowerCase_idem)
qed

lemma handleExtract_distinct: "distinct (handleExtract t)"
  by (simp add: handleExtract_def Let_def newSet_distinct)

lemma handleExtract_sorted: "sorted (handleExtract t)"
  by (simp add: handleExtract_def Let_def)

lemma set_joinNewline: "e \<in> set E \<Longrightarrow> set e \<subseteq> set (joinNewline E)"
  by (induction E rule: joinNewline.induct) auto

section \<open>Claims on the extractor\<close>

text \<open>
  C7. For every input text the list returned by \<open>handleExtract\<close> has no entry twice,
  is sorted ascending in the order of strings, and every entry is its own lower-case
  form.
\<close>

theorem C7_unique_lowercase_sorted:
  "distinct (handleExtract inputText) \<and> sorted (handleExtract inputText)
   \<and> (\<forall>e\<in>set (handleExtract inputText). toLowerCase e = e)"
  using handleExtract_elems by (auto simp: handleExtract_distinct handleExtract_sorted)

theorem C7_unique_lowercase_sorted_witness:
  "handleExtract ''Mail Zed@Site.ORG, Jane@Example.COM or jane@example.com!''
     = [''jane@example.com'', ''zed@site.org'']
   \<and> distinct [''jane@example.com'', ''zed@site.org''] \<and> sorted [''jane@example.com'', ''zed@site.org'']
   \<and> toLowerCase ''jane@example.com'' = ''jane@example.com''
   \<and> toLowerCase ''zed@site.org'' = ''zed@site.org''"
proof -
  have h: "handleExtract ''Mail Zed@Site.ORG, Jane@Example.COM or jane@example.com!''
     = [''jane@example.com'', ''zed@site.org'']" by code_simp
  show ?thesis
    using h C7_unique_lowercase_sorted [of "''Mail Zed@Site.ORG, Jane@Example.COM or jane@example.com!''"]
    by (simp only: h) simp
qed

text \<open>
  C6. Extraction is idempotent: for every input text, extracting from the entries of an
  extraction joined by line feeds gives that same list again.
\<close>

theorem C6_extraction_idempotent:
  "handleExtract (joinNewline (handleExtract inputText)) = handleExtract inputText"
proof (cases "handleExtract inputText = []")
  case True
  then show ?thesis by (simp add: handleExtract_def trim_def)
next
  case False
  let ?E = "handleExtract inputText"
  let ?J = "joinNewline ?E"
  have sh: "list_all shaped ?E" and low: "map toLowerCase ?E = ?E"
    using handleExtract_elems [of _ inputText] by (auto simp: list_all_iff intro: map_idI)
  from False obtain e where e: "e \<in> set ?E" by (cases ?E) auto
  with handleExtract_elems have "CHR ''@'' \<in> set e" by (auto dest: shaped_has_at)
  with set_joinNewline [OF e] have "CHR ''@'' \<in> set ?J" by auto
  moreover have "\<not> isWhiteSpace CHR ''@''" by (simp add: isWhiteSpace_def)
  ultimately have nb: "trim ?J \<noteq> []"
    by (auto simp: trim_Nil_iff list_all_iff)
  have "handleExtract ?J = sort (newSet (map toLowerCase (matchAll True (length ?J) extractorRegex ?J)))"
    using nb by (simp add: handleExtract_def Let_def stringMatch_def)
  also have "\<dots> = sort (newSet (map toLowerCase ?E))"
    by (simp only: matchAll_joinNewline [OF sh])
  also have "\<dots> = sort (newSet ?E)" by (simp only: low)
  also have "\<dots> = sort ?E" by (simp only: newSet_id [OF handleExtract_distinct])
  also have "\<dots> = ?E" by (rule sorted_sort_id [OF handleExtract_sorted])
  finally show ?thesis .
qed

end
